theory Spec2Isabelle
  imports Main "HOL-Library.Word"
begin

unbundle bit_operations_syntax

section \<open>Machine integer types of \<open>yojimbo_common.h\<close>\<close>

type_synonym uint16 = "16 word"
type_synonym uint32 = "32 word"
type_synonym uint64 = "64 word"

text \<open>
  A C \<open>int\<close> is kept as its 32-bit two's complement pattern; \<open>sint\<close> reads its value and
  \<open>uint\<close> reads the same pattern as a \<open>uint32_t\<close>.
\<close>

type_synonym int32 = "32 word"

section \<open>Build configuration\<close>

text \<open>
  Two preprocessor symbols select code in the header. They are fixed for a build, so the
  functions below take them as parameters:
  \<^item> \<open>gnuc\<close>: whether \<open>__GNUC__\<close> is defined, which selects the compiler intrinsics
    \<open>__builtin_popcount\<close>, \<open>__builtin_clz\<close>, \<open>__builtin_bswap32\<close> and
    \<open>__builtin_bswap64\<close> over the portable code;
  \<^item> \<open>big_endian\<close>: the value of \<open>YOJIMBO_BIG_ENDIAN\<close> (set in \<open>yojimbo_config.h\<close>).
\<close>

section \<open>Compiler intrinsics\<close>

text \<open>
  The intrinsics are not code of the header; they are modelled after their documentation in
  the GCC manual. \<open>__builtin_popcount\<close> returns the number of 1-bits of its argument.
\<close>

definition builtin_popcount :: "uint32 \<Rightarrow> int" where
  "builtin_popcount x = int (length (filter (bit x) [0..<32]))"

text \<open>
  \<open>__builtin_clz\<close> returns the number of leading 0-bits, starting at the most significant
  bit position; if the argument is \<open>0\<close> the result is undefined, which is \<open>None\<close> here.
  \<open>leading_zeros n x\<close> counts the zero bits from position \<open>n - 1\<close> downwards.
\<close>

fun leading_zeros :: "nat \<Rightarrow> uint32 \<Rightarrow> nat" where
  "leading_zeros 0 x = 0"
| "leading_zeros (Suc n) x = (if bit x n then 0 else Suc (leading_zeros n x))"

definition builtin_clz :: "uint32 \<Rightarrow> int option" where
  "builtin_clz x = (if x = 0 then None else Some (int (leading_zeros 32 x)))"

text \<open>
  \<open>__builtin_bswap32\<close> and \<open>__builtin_bswap64\<close> return the argument with the order of its
  bytes reversed: bit \<open>n\<close> of the result, which is bit \<open>n mod 8\<close> of byte \<open>n div 8\<close>, is
  the same bit of the byte at the mirrored position.
\<close>

definition swapped_index :: "nat \<Rightarrow> nat \<Rightarrow> nat" where
  "swapped_index w n = 8 * (w div 8 - 1 - n div 8) + n mod 8"

definition builtin_bswap :: "'a::len word \<Rightarrow> 'a word" where
  "builtin_bswap val =
     horner_sum of_bool 2 (map (\<lambda>n. bit val (swapped_index LENGTH('a) n)) [0..<LENGTH('a)])"

section \<open>Bits required for a range\<close>

text \<open>\<open>popcount\<close>: the intrinsic, or the portable bit-parallel count.\<close>

definition popcount :: "bool \<Rightarrow> uint32 \<Rightarrow> uint32" where
  "popcount gnuc x =
     (if gnuc then word_of_int (builtin_popcount x)
      else
        let a = x - (drop_bit 1 x AND 0x55555555);
            b = (drop_bit 2 a AND 0x33333333) + (a AND 0x33333333);
            c = (drop_bit 4 b + b) AND 0x0f0f0f0f;
            d = c + drop_bit 8 c;
            e = d + drop_bit 16 d;
            result = e AND 0x0000003f
        in result)"

text \<open>\<open>log2\<close>: smear the highest set bit downwards, drop one bit, count the ones.\<close>

definition log2 :: "bool \<Rightarrow> uint32 \<Rightarrow> uint32" where
  "log2 gnuc x =
     (let a = x OR drop_bit 1 x;
          b = a OR drop_bit 2 a;
          c = b OR drop_bit 4 b;
          d = c OR drop_bit 8 c;
          e = d OR drop_bit 16 d;
          f = drop_bit 1 e
      in popcount gnuc f)"

text \<open>
  \<open>bits_required\<close>: with \<open>__GNUC__\<close> it is \<open>32 - __builtin_clz( max - min )\<close>, with no test
  for \<open>min == max\<close>; otherwise it is \<open>( min == max ) ? 0 : log2( max - min ) + 1\<close>, computed
  in \<open>uint32_t\<close> and converted to the \<open>int\<close> result. The subtraction \<open>max - min\<close> is on
  \<open>uint32_t\<close> and wraps. The result is \<open>None\<close> where the code's result is undefined.
\<close>

definition bits_required :: "bool \<Rightarrow> uint32 \<Rightarrow> uint32 \<Rightarrow> int option" where
  "bits_required gnuc min' max' =
     (if gnuc then
        (case builtin_clz (max' - min') of None \<Rightarrow> None | Some lz \<Rightarrow> Some (32 - lz))
      else Some (sint (if min' = max' then 0 else log2 gnuc (max' - min') + 1)))"

section \<open>Byte order\<close>

text \<open>\<open>bswap\<close> on \<open>uint64_t\<close>: the intrinsic, or three rounds of swapping halves.\<close>

definition bswap64 :: "bool \<Rightarrow> uint64 \<Rightarrow> uint64" where
  "bswap64 gnuc val =
     (if gnuc then builtin_bswap val
      else
        let val1 = push_bit 32 (val AND 0x00000000FFFFFFFF) OR
                   drop_bit 32 (val AND 0xFFFFFFFF00000000);
            val2 = push_bit 16 (val1 AND 0x0000FFFF0000FFFF) OR
                   drop_bit 16 (val1 AND 0xFFFF0000FFFF0000);
            val3 = push_bit 8 (val2 AND 0x00FF00FF00FF00FF) OR
                   drop_bit 8 (val2 AND 0xFF00FF00FF00FF00)
        in val3)"

text \<open>\<open>bswap\<close> on \<open>uint32_t\<close>: the intrinsic, or the four bytes moved one by one.\<close>

definition bswap32 :: "bool \<Rightarrow> uint32 \<Rightarrow> uint32" where
  "bswap32 gnuc val =
     (if gnuc then builtin_bswap val
      else push_bit 24 (val AND 0x000000ff) OR push_bit 8 (val AND 0x0000ff00) OR
           drop_bit 8 (val AND 0x00ff0000) OR drop_bit 24 (val AND 0xff000000))"

text \<open>
  \<open>bswap\<close> on \<open>uint16_t\<close> has no intrinsic branch. The operand is promoted to \<open>int\<close>, so
  the shifts are on 32 bits, and the result is truncated to 16 bits on return.
\<close>

definition bswap16 :: "uint16 \<Rightarrow> uint16" where
  "bswap16 val =
     ucast (push_bit 8 ((ucast val :: 32 word) AND 0x00ff) OR
            drop_bit 8 ((ucast val :: 32 word) AND 0xff00))"

text \<open>
  \<open>host_to_network\<close> and \<open>network_to_host\<close> are templates over the three unsigned
  types; each instance swaps the bytes on a big endian build and is the identity otherwise.
\<close>

definition host_to_network16 :: "bool \<Rightarrow> uint16 \<Rightarrow> uint16" where
  "host_to_network16 big_endian val = (if big_endian then bswap16 val else val)"

definition host_to_network32 :: "bool \<Rightarrow> bool \<Rightarrow> uint32 \<Rightarrow> uint32" where
  "host_to_network32 big_endian gnuc val = (if big_endian then bswap32 gnuc val else val)"

definition host_to_network64 :: "bool \<Rightarrow> bool \<Rightarrow> uint64 \<Rightarrow> uint64" where
  "host_to_network64 big_endian gnuc val = (if big_endian then bswap64 gnuc val else val)"

definition network_to_host16 :: "bool \<Rightarrow> uint16 \<Rightarrow> uint16" where
  "network_to_host16 big_endian val = (if big_endian then bswap16 val else val)"

definition network_to_host32 :: "bool \<Rightarrow> bool \<Rightarrow> uint32 \<Rightarrow> uint32" where
  "network_to_host32 big_endian gnuc val = (if big_endian then bswap32 gnuc val else val)"

definition network_to_host64 :: "bool \<Rightarrow> bool \<Rightarrow> uint64 \<Rightarrow> uint64" where
  "network_to_host64 big_endian gnuc val = (if big_endian then bswap64 gnuc val else val)"

section \<open>Wrap-aware comparison of 16 bit sequence numbers\<close>

text \<open>
  \<open>sequence_greater_than\<close>: both operands are \<open>uint16_t\<close>, so the comparisons are on the
  unsigned values, and the differences \<open>s1 - s2\<close> and \<open>s2 - s1\<close> are computed after the
  integer promotion to \<open>int\<close>: they do not wrap modulo 65536.
\<close>

definition sequence_greater_than :: "uint16 \<Rightarrow> uint16 \<Rightarrow> bool" where
  "sequence_greater_than s1 s2 =
     ((s1 > s2 \<and> uint s1 - uint s2 \<le> 32768) \<or>
      (s1 < s2 \<and> uint s2 - uint s1 > 32768))"

definition sequence_less_than :: "uint16 \<Rightarrow> uint16 \<Rightarrow> bool" where
  "sequence_less_than s1 s2 = sequence_greater_than s2 s1"

section \<open>Zig-zag encoding\<close>

text \<open>
  \<open>signed_to_unsigned\<close>: \<open>( n << 1 ) ^ ( n >> 31 )\<close> on an \<open>int\<close>; the right shift of a
  signed value is arithmetic, the left shift keeps the low 32 bits.
\<close>

definition signed_to_unsigned :: "int32 \<Rightarrow> int32" where
  "signed_to_unsigned n = push_bit 1 n XOR signed_drop_bit 31 n"

text \<open>
  \<open>unsigned_to_signed\<close>: \<open>( n >> 1 ) ^ ( -int32_t( n & 1 ) )\<close> on a \<open>uint32_t\<close>; the shift
  is logical, and the negated low bit is either all zeros or all ones.
\<close>

definition unsigned_to_signed :: "uint32 \<Rightarrow> int32" where
  "unsigned_to_signed n = drop_bit 1 n XOR (- (n AND 1))"

section \<open>Sequence comparison: properties\<close>

lemma sequence_greater_than_uint:
  "sequence_greater_than s1 s2 \<longleftrightarrow>
     (uint s2 < uint s1 \<and> uint s1 \<le> uint s2 + 32768) \<or>
     (uint s1 < uint s2 \<and> uint s1 + 32768 < uint s2)"
  unfolding sequence_greater_than_def word_less_def by auto

lemma uint_add_half:
  fixes s :: uint16
  shows "uint (s + 32768) = (if uint s < 32768 then uint s + 32768 else uint s - 32768)"
proof -
  have b: "uint s < 65536" "0 \<le> uint s" using uint_lt2p [of s] by simp_all
  have "uint (s + 32768) = (uint s + 32768) mod 65536"
    by (simp add: uint_word_ariths)
  also have "\<dots> = (if uint s < 32768 then uint s + 32768 else uint s - 32768)"
  proof (cases "uint s < 32768")
    case True
    then show ?thesis using b by simp
  next
    case False
    have "(uint s + 32768 - 65536) mod 65536 = (uint s + 32768) mod 65536"
      by (rule minus_mod_self2)
    moreover have "uint s + 32768 - 65536 = uint s - 32768" by simp
    moreover have "(uint s - 32768) mod 65536 = uint s - 32768"
      using False b by (intro mod_pos_pos_trivial) simp_all
    ultimately show ?thesis using False by simp
  qed
  finally show ?thesis .
qed

text \<open>
  C2, as stated: for every \<open>s\<close>, \<open>sequence_greater_than(s, (s + 32768) mod 65536)\<close> is false.
  It fails at \<open>s = 32768\<close>: the second operand wraps to \<open>0\<close>, so \<open>s1 > s2\<close> holds and the
  distance \<open>32768\<close> passes the test \<open>s1 - s2 <= 32768\<close>.
\<close>

theorem sequence_half_way_counterexample:
  "sequence_greater_than (32768 :: uint16) (32768 + 32768) \<noteq> False"
  by (simp add: sequence_greater_than_def)

text \<open>
  C2, amended: at the half-way distance the comparison is false exactly for the sequence
  numbers below \<open>32768\<close>, and true for those from \<open>32768\<close> on; the numerically larger of
  the two values compares as greater.
\<close>

theorem sequence_half_way:
  "sequence_greater_than s (s + 32768) \<longleftrightarrow> 32768 \<le> s"
  using uint_lt2p [of s]
  by (simp add: sequence_greater_than_uint uint_add_half word_le_def)

lemma uint_add_one:
  fixes s :: uint16
  shows "uint (s + 1) = (if uint s = 65535 then 0 else uint s + 1)"
proof -
  have b: "uint s < 65536" "0 \<le> uint s" using uint_lt2p [of s] by simp_all
  have e: "uint (s + 1) = (uint s + 1) mod 65536"
    by (simp add: uint_word_ariths)
  show ?thesis
  proof (cases "uint s = 65535")
    case True
    then show ?thesis using e by simp
  next
    case False
    then have "(uint s + 1) mod 65536 = uint s + 1"
      using b by (intro mod_pos_pos_trivial) simp_all
    then show ?thesis using False e by simp
  qed
qed

text \<open>
  The successor of a sequence number, taken modulo 65536, is greater than the number
  itself, and never the other way round; this includes the step from \<open>65535\<close> to \<open>0\<close>.
\<close>

lemma sequence_successor:
  "sequence_greater_than (s + 1) s \<and> \<not> sequence_greater_than s (s + 1)"
  using uint_lt2p [of s]
  by (simp add: sequence_greater_than_uint uint_add_one)

text \<open>
  C7: \<open>sequence_greater_than(1, 0)\<close>, \<open>sequence_greater_than(0, 65535)\<close> and
  \<open>sequence_less_than(0, 1)\<close> are true, and the reverse comparisons are false. Adjacent
  sequence numbers compare in cyclic order everywhere, also across the 0/65535 boundary:
  for every \<open>s\<close>, \<open>s + 1\<close> (modulo 65536) is greater than \<open>s\<close> and \<open>s\<close> is not greater than
  \<open>s + 1\<close>, and likewise \<open>s\<close> is less than \<open>s + 1\<close> and not the reverse. Finally
  \<open>sequence_less_than(s1, s2)\<close> is \<open>sequence_greater_than(s2, s1)\<close> for every pair.
\<close>

theorem sequence_adjacent_and_less_than:
  "sequence_greater_than 1 0 \<and> sequence_greater_than 0 65535 \<and> sequence_less_than 0 1 \<and>
   \<not> sequence_greater_than 0 1 \<and> \<not> sequence_greater_than 65535 0 \<and>
   \<not> sequence_less_than 1 0 \<and>
   sequence_greater_than (s + 1) s \<and> \<not> sequence_greater_than s (s + 1) \<and>
   sequence_less_than s (s + 1) \<and> \<not> sequence_less_than (s + 1) s \<and>
   sequence_less_than s1 s2 = sequence_greater_than s2 s1"
proof -
  have points: "sequence_greater_than 1 0 \<and> sequence_greater_than 0 65535 \<and>
      \<not> sequence_greater_than 0 1 \<and> \<not> sequence_greater_than 65535 0"
    by (simp add: sequence_greater_than_def)
  with sequence_successor [of s] show ?thesis
    by (simp add: sequence_less_than_def)
qed

text \<open>
  C9: \<open>sequence_greater_than\<close> is irreflexive, and of two distinct sequence numbers
  exactly one is greater than the other; when they are exactly \<open>32768\<close> apart it is the
  numerically larger one.
\<close>

theorem sequence_greater_than_total:
  "\<not> sequence_greater_than s s \<and>
   (s1 \<noteq> s2 \<longrightarrow> sequence_greater_than s1 s2 \<noteq> sequence_greater_than s2 s1) \<and>
   (uint s1 = uint s2 + 32768 \<longrightarrow>
      sequence_greater_than s1 s2 \<and> \<not> sequence_greater_than s2 s1)"
proof (intro conjI impI)
  show "\<not> sequence_greater_than s s"
    by (simp add: sequence_greater_than_uint)
  show "sequence_greater_than s1 s2 \<noteq> sequence_greater_than s2 s1" if "s1 \<noteq> s2"
    using that unfolding sequence_greater_than_uint word_uint_eq_iff by linarith
  show "sequence_greater_than s1 s2" if "uint s1 = uint s2 + 32768"
    using that unfolding sequence_greater_than_uint by linarith
  show "\<not> sequence_greater_than s2 s1" if "uint s1 = uint s2 + 32768"
    using that unfolding sequence_greater_than_uint by linarith
qed

theorem sequence_greater_than_total_witness:
  "\<not> sequence_greater_than 5 5 \<and>
   (40000 :: uint16) \<noteq> 7232 \<and> uint (40000 :: uint16) = uint (7232 :: uint16) + 32768 \<and>
   sequence_greater_than 40000 7232 \<noteq> sequence_greater_than 7232 40000 \<and>
   sequence_greater_than 40000 7232 \<and> \<not> sequence_greater_than 7232 40000"
proof -
  have d: "(40000 :: uint16) \<noteq> 7232" by simp
  have h: "uint (40000 :: uint16) = uint (7232 :: uint16) + 32768" by simp
  show ?thesis
    using d h sequence_greater_than_total [of 5 40000 7232] by blast
qed

section \<open>Zig-zag encoding: properties\<close>

lemma neg_low_bit: "- (n AND 1) = (if bit n 0 then - 1 else (0 :: 32 word))"
  by (simp add: and_one_eq bit_0 mod_2_eq_odd)

lemma signed_drop_bit_31: "signed_drop_bit 31 (n :: 32 word) = (if bit n 31 then - 1 else 0)"
proof (rule bit_word_eqI)
  fix k assume "k < LENGTH(32)"
  then have "k = 0 \<or> 31 \<le> 31 + k - 1 \<and> 0 < k" by auto
  then show "bit (signed_drop_bit 31 n) k = bit (if bit n 31 then - 1 else (0 :: 32 word)) k"
    using \<open>k < LENGTH(32)\<close> by (auto simp add: bit_signed_drop_bit_iff)
qed

lemma bit_shift_left_1:
  "bit (push_bit 1 (n :: 32 word)) k \<longleftrightarrow> 0 < k \<and> k < 32 \<and> bit n (k - 1)"
  using bit_push_bit_iff [of 1 n k] by (auto simp add: bit_simps simp del: push_bit_of_1)

lemma bit_shift_right_1:
  "bit (drop_bit 1 (n :: 32 word)) k \<longleftrightarrow> k < 31 \<and> bit n (k + 1)"
  using bit_drop_bit_eq [of 1 n] bit_imp_le_length [of n "k + 1"] by (auto simp add: bit_simps)

lemma bit_signed_to_unsigned:
  "bit (signed_to_unsigned n) k \<longleftrightarrow>
     k < 32 \<and> (if k = 0 then bit n 31 else bit n (k - 1) \<noteq> bit n 31)"
  unfolding signed_to_unsigned_def signed_drop_bit_31 bit_xor_iff bit_shift_left_1 by auto

lemma bit_unsigned_to_signed:
  "bit (unsigned_to_signed n) k \<longleftrightarrow>
     k < 32 \<and> (if k = 31 then bit n 0 else bit n (k + 1) \<noteq> bit n 0)"
  unfolding unsigned_to_signed_def neg_low_bit bit_xor_iff bit_shift_right_1 by auto

text \<open>
  C5: decoding the zig-zag encoding of any 32-bit signed value gives the value back; the
  statement ranges over all \<open>2 ^ 32\<close> bit patterns, so it covers \<open>INT32_MIN\<close>,
  \<open>INT32_MAX\<close>, \<open>0\<close>, \<open>-1\<close> and \<open>1\<close>.
\<close>

theorem zigzag_decode_encode: "unsigned_to_signed (signed_to_unsigned n) = n"
  by (rule bit_word_eqI) (auto simp add: bit_unsigned_to_signed bit_signed_to_unsigned)

text \<open>
  C10: encoding the zig-zag decoding of any 32-bit unsigned value gives the value back, so
  the two functions are inverse bijections.
\<close>

theorem zigzag_encode_decode: "signed_to_unsigned (unsigned_to_signed u) = u"
  by (rule bit_word_eqI) (auto simp add: bit_unsigned_to_signed bit_signed_to_unsigned)

lemma uint_bounds32: "0 \<le> uint (n :: 32 word)" "uint n < 2 ^ 32"
  using uint_lt2p [of n] by simp_all

lemma sint32: "sint (n :: 32 word) = (if bit n 31 then uint n - 2 ^ 32 else uint n)"
proof -
  have "take_bit 32 (uint n) = uint n"
    using uint_bounds32 [of n] by (intro take_bit_int_eq_self) simp_all
  then show ?thesis
    by (simp add: sint_uint signed_take_bit_eq_take_bit_minus bit_uint_iff)
qed

lemma uint_msb32: "bit (n :: 32 word) 31 \<longleftrightarrow> 2 ^ 31 \<le> uint n"
proof -
  have "bit n 31 \<longleftrightarrow> sint n < 0" using bit_last_iff [of n] by simp
  moreover have "- (2 ^ 31) \<le> sint n" "sint n < 2 ^ 31"
    using sint_greater_eq [of n] sint_less [of n] by simp_all
  ultimately show ?thesis using uint_bounds32 [of n]
    by (auto simp add: sint32 split: if_splits)
qed

lemma uint_double32:
  "uint (push_bit 1 (n :: 32 word)) = (if bit n 31 then 2 * uint n - 2 ^ 32 else 2 * uint n)"
proof -
  have "push_bit 1 n = n + n" by (simp add: push_bit_eq_mult)
  then have e: "uint (push_bit 1 n) = (uint n + uint n) mod 2 ^ 32"
    by (simp only: uint_word_ariths) simp
  show ?thesis
  proof (cases "bit n 31")
    case False
    then have "uint n + uint n < 2 ^ 32" using uint_msb32 [of n] by simp
    then have "(uint n + uint n) mod 2 ^ 32 = uint n + uint n"
      using uint_bounds32 [of n] by (intro mod_pos_pos_trivial) simp_all
    then show ?thesis using False e by simp
  next
    case True
    then have b: "2 ^ 32 \<le> uint n + uint n" "uint n + uint n - 2 ^ 32 < 2 ^ 32"
      using uint_msb32 [of n] uint_bounds32 [of n] by simp_all
    have "(uint n + uint n - 2 ^ 32) mod 2 ^ 32 = (uint n + uint n) mod 2 ^ 32"
      by (rule minus_mod_self2)
    moreover have "(uint n + uint n - 2 ^ 32) mod 2 ^ 32 = uint n + uint n - 2 ^ 32"
      using b by (intro mod_pos_pos_trivial) simp_all
    ultimately show ?thesis using True e by simp
  qed
qed

lemma uint_not32: "uint (NOT (x :: 32 word)) = 2 ^ 32 - 1 - uint x"
proof -
  have n: "NOT x = - 1 - x" by (simp add: not_eq_complement)
  have m: "uint (- 1 :: 32 word) = 2 ^ 32 - 1"
    by (simp add: unsigned_minus_1_eq_mask mask_eq_exp_minus_1)
  have "uint x \<le> uint (- 1 :: 32 word)" using uint_bounds32 [of x] by (simp add: m)
  then have "uint (- 1 - x) = uint (- 1 :: 32 word) - uint x"
    using uint_sub_lem [of x "- 1"] by simp
  then show ?thesis using n m by simp
qed

text \<open>
  C8: \<open>signed_to_unsigned\<close> sends \<open>0, -1, 1, -2\<close> to \<open>0, 1, 2, 3\<close>, and in general a
  non-negative \<open>n\<close> to \<open>2n\<close> and a negative \<open>n\<close> to \<open>2|n| - 1\<close>, the result being read as a
  \<open>uint32\<close>.
\<close>

theorem zigzag_values:
  "signed_to_unsigned 0 = 0 \<and> signed_to_unsigned (- 1) = 1 \<and>
   signed_to_unsigned 1 = 2 \<and> signed_to_unsigned (- 2) = 3 \<and>
   uint (signed_to_unsigned n) = (if 0 \<le> sint n then 2 * sint n else 2 * \<bar>sint n\<bar> - 1)"
proof -
  have small: "signed_to_unsigned 0 = 0 \<and> signed_to_unsigned (- 1) = 1 \<and>
      signed_to_unsigned 1 = 2 \<and> signed_to_unsigned (- 2) = 3"
    by (simp add: signed_to_unsigned_def signed_drop_bit_31)
  have "uint (signed_to_unsigned n) = (if 0 \<le> sint n then 2 * sint n else 2 * \<bar>sint n\<bar> - 1)"
  proof (cases "bit n 31")
    case False
    then have "signed_to_unsigned n = push_bit 1 n"
      unfolding signed_to_unsigned_def signed_drop_bit_31 by simp
    then have "uint (signed_to_unsigned n) = 2 * uint n"
      using False by (simp only: uint_double32 if_False)
    then show ?thesis using False uint_bounds32 [of n] by (simp add: sint32)
  next
    case True
    then have "signed_to_unsigned n = NOT (push_bit 1 n)"
      unfolding signed_to_unsigned_def signed_drop_bit_31 by simp
    then have "uint (signed_to_unsigned n) = 2 ^ 32 - 1 - (2 * uint n - 2 ^ 32)"
      using True by (simp only: uint_double32 uint_not32 if_True)
    then show ?thesis using True uint_bounds32 [of n] by (simp add: sint32)
  qed
  with small show ?thesis by blast
qed

section \<open>Byte order: properties\<close>

text \<open>A quantifier bounded by a numeral unrolls into its instances.\<close>

lemma all_less_numeral:
  "(\<forall>i<numeral k. P i) \<longleftrightarrow> P (pred_numeral k) \<and> (\<forall>i<pred_numeral k. P i)"
  by (simp add: numeral_eq_Suc All_less_Suc)

lemma bit_builtin_bswap:
  "bit (builtin_bswap (v :: 'a::len word)) n \<longleftrightarrow>
     n < LENGTH('a) \<and> bit v (swapped_index LENGTH('a) n)"
  by (auto simp add: builtin_bswap_def bit_simps)

text \<open>Every bit of a portable swap comes from the mirrored byte, position by position.\<close>

lemma bit_bswap16: "\<forall>n<16. bit (bswap16 v) n = bit v (swapped_index 16 n)"
  unfolding bswap16_def swapped_index_def
  by (simp add: all_less_numeral bit_simps) (simp add: numeral_2_eq_2)

lemma bit_bswap32_portable: "\<forall>n<32. bit (bswap32 False v) n = bit v (swapped_index 32 n)"
  unfolding bswap32_def swapped_index_def
  by (simp add: all_less_numeral bit_simps) (simp add: numeral_2_eq_2)

lemma bit_bswap64_portable: "\<forall>n<64. bit (bswap64 False v) n = bit v (swapped_index 64 n)"
  unfolding bswap64_def swapped_index_def Let_def
  by (simp add: all_less_numeral bit_simps) (simp add: numeral_2_eq_2)

lemma swapped_index_16:
  "\<forall>n<16. swapped_index 16 n < 16 \<and> swapped_index 16 (swapped_index 16 n) = n"
  by (simp add: all_less_numeral swapped_index_def)

lemma swapped_index_32:
  "\<forall>n<32. swapped_index 32 n < 32 \<and> swapped_index 32 (swapped_index 32 n) = n"
  by (simp add: all_less_numeral swapped_index_def)

lemma swapped_index_64:
  "\<forall>n<64. swapped_index 64 n < 64 \<and> swapped_index 64 (swapped_index 64 n) = n"
  by (simp add: all_less_numeral swapped_index_def)

text \<open>The portable code and the intrinsic compute the same function.\<close>

lemma bswap32_paths_agree: "bswap32 False v = bswap32 True v"
proof (rule bit_word_eqI)
  fix n assume "n < LENGTH(32)"
  then show "bit (bswap32 False v) n = bit (bswap32 True v) n"
    using bit_bswap32_portable [of v] by (simp add: bswap32_def bit_builtin_bswap)
qed

lemma bswap64_paths_agree: "bswap64 False v = bswap64 True v"
proof (rule bit_word_eqI)
  fix n assume "n < LENGTH(64)"
  then show "bit (bswap64 False v) n = bit (bswap64 True v) n"
    using bit_bswap64_portable [of v] by (simp add: bswap64_def bit_builtin_bswap)
qed

lemma bswap16_involution: "bswap16 (bswap16 v) = v"
proof (rule bit_word_eqI)
  fix n assume "n < LENGTH(16)"
  then show "bit (bswap16 (bswap16 v)) n = bit v n"
    using swapped_index_16 by (simp add: bit_bswap16)
qed

lemma bswap32_involution: "bswap32 gnuc (bswap32 gnuc v) = v"
proof -
  have "bswap32 False (bswap32 False v) = v"
  proof (rule bit_word_eqI)
    fix n assume "n < LENGTH(32)"
    then show "bit (bswap32 False (bswap32 False v)) n = bit v n"
      using swapped_index_32 by (simp add: bit_bswap32_portable)
  qed
  then show ?thesis by (cases gnuc) (simp_all flip: bswap32_paths_agree)
qed

lemma bswap64_involution: "bswap64 gnuc (bswap64 gnuc v) = v"
proof -
  have "bswap64 False (bswap64 False v) = v"
  proof (rule bit_word_eqI)
    fix n assume "n < LENGTH(64)"
    then show "bit (bswap64 False (bswap64 False v)) n = bit v n"
      using swapped_index_64 by (simp add: bit_bswap64_portable)
  qed
  then show ?thesis by (cases gnuc) (simp_all flip: bswap64_paths_agree)
qed

text \<open>
  C6: for each of the widths 16, 32 and 64, swapping the bytes twice gives the value back,
  and \<open>network_to_host\<close> undoes \<open>host_to_network\<close>; this holds on either branch of
  \<open>__GNUC__\<close> and for either byte order of the build.
\<close>

theorem byte_order_round_trip:
  "bswap16 (bswap16 x) = x \<and>
   bswap32 gnuc (bswap32 gnuc y) = y \<and>
   bswap64 gnuc (bswap64 gnuc z) = z \<and>
   network_to_host16 big_endian (host_to_network16 big_endian x) = x \<and>
   network_to_host32 big_endian gnuc (host_to_network32 big_endian gnuc y) = y \<and>
   network_to_host64 big_endian gnuc (host_to_network64 big_endian gnuc z) = z"
  by (simp add: bswap16_involution bswap32_involution bswap64_involution
      host_to_network16_def host_to_network32_def host_to_network64_def
      network_to_host16_def network_to_host32_def network_to_host64_def)

section \<open>Bits required: properties\<close>

text \<open>
  The highest set bit of a non-zero word sits \<open>leading_zeros\<close> positions below the top.
\<close>

lemma leading_zeros_top:
  "x \<noteq> 0 \<Longrightarrow> \<forall>m\<ge>n. \<not> bit x m \<Longrightarrow>
     leading_zeros n x < n \<and> bit x (n - 1 - leading_zeros n x) \<and>
     (\<forall>m>n - 1 - leading_zeros n x. \<not> bit x m)"
proof (induction n)
  case 0
  then have "x = 0" by (intro bit_eqI) simp
  with 0 show ?case by simp
next
  case (Suc n)
  show ?case
  proof (cases "bit x n")
    case True
    then show ?thesis using Suc.prems(2) by (auto simp add: Suc_le_eq)
  next
    case False
    then have "\<forall>m\<ge>n. \<not> bit x m"
      using Suc.prems(2) by (metis Suc_leI le_neq_implies_less)
    from Suc.IH [OF Suc.prems(1) this] False show ?thesis by simp
  qed
qed

lemma top_bit_exists:
  fixes x :: uint32
  assumes "x \<noteq> 0"
  shows "leading_zeros 32 x < 32 \<and> bit x (31 - leading_zeros 32 x) \<and>
         (\<forall>m>31 - leading_zeros 32 x. \<not> bit x m)"
proof -
  have "\<forall>m\<ge>32. \<not> bit x m" using bit_imp_le_length [of x] by fastforce
  from leading_zeros_top [OF assms this] show ?thesis by simp
qed

lemma top_bit_bounds:
  fixes x :: uint32
  assumes "bit x k" and "\<forall>m>k. \<not> bit x m"
  shows "2 ^ k \<le> unat x" and "unat x < 2 ^ Suc k"
proof -
  have "bit (unat x) k" using assms(1) by (simp add: bit_unsigned_iff)
  then have "odd (unat x div 2 ^ k)" by (simp add: bit_iff_odd)
  then show "2 ^ k \<le> unat x"
    by (metis div_less even_zero not_le)
  have "take_bit (Suc k) x = x"
    using assms(2) by (intro bit_eqI) (auto simp add: bit_take_bit_iff not_less_eq less_Suc_eq_le)
  then have "unat x = take_bit (Suc k) (unat x)"
    by (metis unsigned_take_bit_eq)
  then show "unat x < 2 ^ Suc k"
    by (metis take_bit_nat_less_exp)
qed

lemma least_bits:
  fixes x :: uint32
  assumes "bit x k" and "\<forall>m>k. \<not> bit x m"
  shows "(LEAST j. unat x < 2 ^ j) = Suc k"
proof (rule Least_equality)
  show "unat x < 2 ^ Suc k" using top_bit_bounds(2) [OF assms] .
  fix j assume "unat x < 2 ^ j"
  with top_bit_bounds(1) [OF assms] have "(2 :: nat) ^ k < 2 ^ j" by (rule le_less_trans)
  then have "k < j" by (simp add: power_strict_increasing_iff)
  then show "Suc k \<le> j" by simp
qed

text \<open>
  The portable population count is only ever applied to a run of low one bits here, and on
  each of those 32 values it returns the length of the run.
\<close>

lemma popcount_mask: "\<forall>k<32. popcount False (mask k) = of_nat k"
  by (simp add: all_less_numeral popcount_def Let_def mask_eq_exp_minus_1)

text \<open>One round of smearing doubles the window of bits that reach a position.\<close>

lemma smear_step:
  fixes x y :: uint32
  assumes "\<And>n. bit y n \<longleftrightarrow> (\<exists>j<m. bit x (n + j))"
  shows "bit (y OR drop_bit m y) n \<longleftrightarrow> (\<exists>j<2 * m. bit x (n + j))"
proof -
  have "bit (y OR drop_bit m y) n \<longleftrightarrow> (\<exists>j<m. bit x (n + j)) \<or> (\<exists>j<m. bit x (n + (m + j)))"
    by (simp add: bit_or_iff bit_drop_bit_eq assms add_ac)
  also have "\<dots> \<longleftrightarrow> (\<exists>j<2 * m. bit x (n + j))"
  proof
    assume "(\<exists>j<m. bit x (n + j)) \<or> (\<exists>j<m. bit x (n + (m + j)))"
    then show "\<exists>j<2 * m. bit x (n + j)"
    proof
      assume "\<exists>j<m. bit x (n + j)"
      then obtain j where "j < m" "bit x (n + j)" by blast
      then have "j < 2 * m \<and> bit x (n + j)" by simp
      then show ?thesis by blast
    next
      assume "\<exists>j<m. bit x (n + (m + j))"
      then obtain j where "j < m" "bit x (n + (m + j))" by blast
      then have "m + j < 2 * m \<and> bit x (n + (m + j))" by simp
      then show ?thesis by blast
    qed
  next
    assume "\<exists>j<2 * m. bit x (n + j)"
    then obtain j where j: "j < 2 * m" "bit x (n + j)" by blast
    show "(\<exists>j<m. bit x (n + j)) \<or> (\<exists>j<m. bit x (n + (m + j)))"
    proof (cases "j < m")
      case True
      with j show ?thesis by blast
    next
      case False
      then have "j - m < m \<and> bit x (n + (m + (j - m)))" using j by simp
      then show ?thesis by blast
    qed
  qed
  finally show ?thesis .
qed

lemma log2_top_bit:
  fixes x :: uint32
  assumes "bit x k" and "\<forall>m>k. \<not> bit x m"
  shows "log2 False x = of_nat k"
proof -
  define a where "a = x OR drop_bit 1 x"
  define b where "b = a OR drop_bit 2 a"
  define c where "c = b OR drop_bit 4 b"
  define d where "d = c OR drop_bit 8 c"
  define e where "e = d OR drop_bit 16 d"
  have k: "k < 32" using bit_imp_le_length [OF assms(1)] by simp
  have "bit x n \<longleftrightarrow> (\<exists>j<1. bit x (n + j))" for n by simp
  from smear_step [of x 1 x, OF this] have "bit a n \<longleftrightarrow> (\<exists>j<2. bit x (n + j))" for n
    by (simp add: a_def)
  from smear_step [of a 2 x, OF this] have "bit b n \<longleftrightarrow> (\<exists>j<4. bit x (n + j))" for n
    by (simp add: b_def)
  from smear_step [of b 4 x, OF this] have "bit c n \<longleftrightarrow> (\<exists>j<8. bit x (n + j))" for n
    by (simp add: c_def)
  from smear_step [of c 8 x, OF this] have "bit d n \<longleftrightarrow> (\<exists>j<16. bit x (n + j))" for n
    by (simp add: d_def)
  from smear_step [of d 16 x, OF this] have e: "bit e n \<longleftrightarrow> (\<exists>j<32. bit x (n + j))" for n
    by (simp add: e_def)
  have en: "bit e n \<longleftrightarrow> n \<le> k" for n
  proof
    assume "bit e n"
    then obtain j where "bit x (n + j)" using e by blast
    then have "\<not> k < n + j" using assms(2) by blast
    then show "n \<le> k" by simp
  next
    assume "n \<le> k"
    then have "k - n < 32 \<and> bit x (n + (k - n))" using k assms(1) by simp
    then show "bit e n" using e by blast
  qed
  have "drop_bit 1 e = mask k"
    using k by (intro bit_word_eqI) (auto simp add: bit_drop_bit_eq bit_mask_iff en)
  moreover have "log2 False x = popcount False (drop_bit 1 e)"
    unfolding log2_def Let_def a_def b_def c_def d_def e_def by (rule refl)
  ultimately show ?thesis using popcount_mask k by simp
qed

text \<open>
  The portable branch returns the smallest \<open>k\<close> with \<open>2 ^ k > max - min\<close>, for every input.
\<close>

lemma bits_required_portable_least:
  "bits_required False min' max' = Some (int (LEAST k. unat (max' - min') < 2 ^ k))"
proof (cases "min' = max'")
  case True
  have "(LEAST k. (0 :: nat) < 2 ^ k) = 0" by (rule Least_equality) simp_all
  with True show ?thesis by (simp add: bits_required_def)
next
  case False
  define x where "x = max' - min'"
  define k where "k = 31 - leading_zeros 32 x"
  have "x \<noteq> 0" using False by (simp add: x_def)
  from top_bit_exists [OF this] have t: "bit x k" "\<forall>m>k. \<not> bit x m" and k: "k < 32"
    by (simp_all add: k_def)
  have "int (Suc k) < 2 ^ 31" using k by simp
  then have "signed_take_bit 31 (int (Suc k)) = int (Suc k)"
    by (intro signed_take_bit_int_eq_self) simp_all
  then have "sint (of_nat (Suc k) :: uint32) = int (Suc k)"
    by (simp only: signed_of_nat) simp
  moreover have "of_nat k + 1 = (of_nat (Suc k) :: uint32)" by simp
  ultimately have "sint (of_nat k + 1 :: uint32) = int (Suc k)" by (simp only:)
  then show ?thesis
    using False by (simp add: bits_required_def log2_top_bit [OF t] least_bits [OF t] flip: x_def)
qed

text \<open>The intrinsic branch returns the same, as long as the bounds differ.\<close>

lemma bits_required_gnuc_least:
  assumes "min' \<noteq> max'"
  shows "bits_required True min' max' = Some (int (LEAST k. unat (max' - min') < 2 ^ k))"
proof -
  define x where "x = max' - min'"
  define k where "k = 31 - leading_zeros 32 x"
  have x: "x \<noteq> 0" using assms by (simp add: x_def)
  from top_bit_exists [OF this]
  have t: "bit x k" "\<forall>m>k. \<not> bit x m" and k: "leading_zeros 32 x < 32"
    by (simp_all add: k_def)
  have "32 - int (leading_zeros 32 x) = int (Suc k)" using k by (simp add: k_def)
  then show ?thesis
    using x by (simp add: bits_required_def builtin_clz_def least_bits [OF t] flip: x_def)
qed

lemma bits_required_paths_agree:
  "min' \<noteq> max' \<Longrightarrow> bits_required True min' max' = bits_required False min' max'"
  by (simp add: bits_required_gnuc_least bits_required_portable_least)

lemma bits_required_smallest:
  assumes "min' \<le> max'" and "gnuc \<longrightarrow> min' \<noteq> max'"
  shows "bits_required gnuc min' max' = Some (int (LEAST k. unat max' - unat min' < 2 ^ k))"
proof -
  have "unat (max' - min') = unat max' - unat min'" using assms(1) by (rule unat_sub)
  then show ?thesis
    using assms(2) bits_required_gnuc_least [of min' max'] bits_required_portable_least [of min' max']
    by (cases gnuc) simp_all
qed

lemma bits_required_smallest_example:
  "(3 :: uint32) \<le> 10 \<and> bits_required True 3 10 = Some 3 \<and> bits_required False 3 10 = Some 3 \<and>
   (LEAST k. unat (10 :: uint32) - unat (3 :: uint32) < 2 ^ k) = 3"
proof -
  have p: "bits_required False 3 10 = Some 3"
    by (simp add: bits_required_def log2_def popcount_def Let_def)
  have h: "(3 :: uint32) \<le> 10" by simp
  from bits_required_smallest [OF h, of False] bits_required_smallest [OF h, of True] p
  show ?thesis by simp
qed

text \<open>
  C3: \<open>bits_required(min, max)\<close> is to return the smallest \<open>k\<close> with \<open>2 ^ k > max - min\<close>,
  and \<open>0\<close> when \<open>min == max\<close>. Evaluated at equal bounds: the portable branch returns \<open>0\<close>,
  while the \<open>__GNUC__\<close> branch passes \<open>max - min = 0\<close> to \<open>__builtin_clz\<close> unguarded and
  has no defined result.
\<close>

theorem bits_required_equal_bounds:
  "bits_required True m m = None \<and> bits_required False m m = Some 0"
  by (simp add: bits_required_def builtin_clz_def)

text \<open>
  C4: the intrinsic branch and the portable branch of \<open>bits_required\<close> are to agree on
  every input with \<open>min \<le> max\<close>. Evaluated at \<open>min = max = 7\<close>: the portable branch
  returns \<open>0\<close> and the intrinsic branch has no defined result, so the two differ there.
\<close>

theorem bits_required_paths_differ:
  "(7 :: uint32) \<le> 7 \<and> bits_required True 7 7 \<noteq> bits_required False 7 7"
  by (simp add: bits_required_def builtin_clz_def)

end
